theory Spec2Isabelle
  imports Main "HOL-Library.Char_ord" "HOL-Library.List_Lexorder"
begin

section \<open>The paragraph model of \<^verbatim>\<open>src/paragraph.js\<close>\<close>

text \<open>
  A paragraph owns a text and a list of inline formats. Offsets are JavaScript numbers
  holding integers; they are modelled as \<^typ>\<open>int\<close>, since the code never clamps
  them and negative offsets are reachable. A JavaScript string is a sequence of code
  units; it is modelled as \<^typ>\<open>string\<close>, one \<^typ>\<open>char\<close> per code unit
  (no function below looks at the value of a code unit of the text). The field names of
  the source are prefixed (\<open>f_\<close> for a format, \<open>p_\<close> for a paragraph), because
  \<open>from\<close> and \<open>text\<close> are reserved words here; the private methods lose their
  trailing underscore (\<open>shiftFormatsFrom_\<close>, \<open>normalizeFormats_\<close>).

  The DOM element of a paragraph and everything that only writes to it
  (\<open>updateInnerDom_\<close>, the DOM half of \<open>setText\<close>) is left out: no method reads
  the DOM back into \<open>text\<close> or \<open>formats\<close>.
\<close>

type_synonym attrs = "(string \<times> string) list"

record Format =
  f_type :: string
  f_from :: int
  f_to :: int
  f_attrs :: "attrs option"

record Paragraph =
  p_name :: string
  p_text :: string
  p_placeholderText :: "string option"
  p_paragraphType :: string
  p_formats :: "Format list"

text \<open>
  Modelled from the spec: \<open>Utils.clone\<close>, of \<open>utils.js\<close>, which is not among the
  sources at hand. The spec has a format be a plain value with no identity beyond its
  position (section 3), so the clone of a value is that value. As a JavaScript object it
  is a new reference; references are modelled where the code compares them (in
  \<open>format\<close> below).
\<close>

definition clone :: "'a \<Rightarrow> 'a" where
  "clone x = x"

subsection \<open>Strings and arrays of JavaScript\<close>

text \<open>
  \<open>String.prototype.substring(start, end)\<close> clamps both arguments to
  \<open>[0, length]\<close> and swaps them when \<open>start > end\<close>; with one argument the end is
  the length. It never throws.
\<close>

definition clampIndex :: "string \<Rightarrow> int \<Rightarrow> nat" where
  "clampIndex s i = nat (min (max i 0) (int (length s)))"

definition substring :: "string \<Rightarrow> int \<Rightarrow> int \<Rightarrow> string" where
  "substring s a b =
     (let a' = clampIndex s a; b' = clampIndex s b
      in take (max a' b' - min a' b') (drop (min a' b') s))"

definition substringFrom :: "string \<Rightarrow> int \<Rightarrow> string" where
  "substringFrom s a = drop (clampIndex s a) s"

text \<open>
  \<open>Array.prototype.splice(start, 1)\<close>: a negative \<open>start\<close> counts back from the
  length (and is clamped to 0), a \<open>start\<close> at or beyond the length removes nothing.
\<close>

definition splice1 :: "int \<Rightarrow> 'a list \<Rightarrow> 'a list" where
  "splice1 i xs =
     (let k = (if i < 0 then nat (max (int (length xs) + i) 0) else nat i)
      in take k xs @ drop (Suc k) xs)"

text \<open>
  \<open>xs[i] = v\<close>: inside the array the element is replaced; a negative \<open>i\<close> sets a
  property that is no element of the array. An index at or beyond the length (where
  JavaScript would extend the array) does not occur: every index assigned comes from
  \<open>indexOf\<close>, which is \<open>-1\<close> or a position of the array (lemma \<open>indexOf_range\<close>);
  the list is left as it is there.
\<close>

definition assignAt :: "int \<Rightarrow> 'a \<Rightarrow> 'a list \<Rightarrow> 'a list" where
  "assignAt i v xs = (if i < 0 then xs else xs[nat i := v])"

subsection \<open>Text splices\<close>

definition setText :: "string \<Rightarrow> Paragraph \<Rightarrow> Paragraph" where
  "setText t p = p\<lparr>p_text := t\<rparr>"

text \<open>
  \<open>shiftFormatsFrom_\<close>: the first loop records the indices of the formats to remove
  and shifts every format in place; the second loop splices the recorded indices out
  one after the other, each index being the one recorded before any removal.
\<close>

definition inShiftedRange :: "int \<Rightarrow> int \<Rightarrow> Format \<Rightarrow> bool" where
  "inShiftedRange startIndex shift f \<longleftrightarrow>
     startIndex \<le> f_from f \<and> startIndex - shift \<ge> f_to f"

definition shiftFormat :: "int \<Rightarrow> int \<Rightarrow> Format \<Rightarrow> Format" where
  "shiftFormat startIndex shift f =
     (let f1 = (if f_from f \<ge> startIndex then f\<lparr>f_from := f_from f + shift\<rparr> else f)
      in (if f_to f1 > startIndex then f1\<lparr>f_to := f_to f1 + shift\<rparr> else f1))"

fun shiftLoop :: "int \<Rightarrow> int \<Rightarrow> nat \<Rightarrow> Format list \<Rightarrow> nat list \<times> Format list" where
  "shiftLoop startIndex shift i [] = ([], [])"
| "shiftLoop startIndex shift i (f # fs) =
     (let (toRemove, fs') = shiftLoop startIndex shift (Suc i) fs
      in ((if inShiftedRange startIndex shift f then [i] else []) @ toRemove,
          shiftFormat startIndex shift f # fs'))"

fun spliceAll :: "nat list \<Rightarrow> 'a list \<Rightarrow> 'a list" where
  "spliceAll [] xs = xs"
| "spliceAll (i # is) xs = spliceAll is (splice1 (int i) xs)"

definition shiftFormatsFrom :: "int \<Rightarrow> int \<Rightarrow> Format list \<Rightarrow> Format list" where
  "shiftFormatsFrom startIndex shift fs =
     (let (toRemove, fs') = shiftLoop startIndex shift 0 fs in spliceAll toRemove fs')"

definition insertCharactersAt :: "string \<Rightarrow> int \<Rightarrow> Paragraph \<Rightarrow> Paragraph" where
  "insertCharactersAt chars index p =
     (let updatedText = substring (p_text p) 0 index @ chars @ substringFrom (p_text p) index;
          p1 = p\<lparr>p_formats := shiftFormatsFrom index (int (length chars)) (p_formats p)\<rparr>
      in setText updatedText p1)"

definition removeCharactersAt :: "int \<Rightarrow> int \<Rightarrow> Paragraph \<Rightarrow> Paragraph" where
  "removeCharactersAt index count p =
     (let updatedText = substring (p_text p) 0 index @ substringFrom (p_text p) (index + count);
          p1 = p\<lparr>p_formats := shiftFormatsFrom index (-1 * count) (p_formats p)\<rparr>
      in setText updatedText p1)"

subsection \<open>Overlap queries\<close>

text \<open>
  The array \<open>this.formats\<close> holds references to format objects, and \<open>format\<close>
  looks a format up by reference (\<open>indexOf\<close>). An element of the array is therefore
  modelled, where identity matters, as a pair of a reference and the object's fields.
  \<open>withRefs\<close> names the objects of an array by their position: \<open>Some i\<close> is the
  object at index \<open>i\<close> when the method was entered, \<open>None\<close> tags an object created
  since (a clone or a literal), which nothing looks up. The objects of one array are
  taken to be distinct objects.
\<close>

type_synonym obj = "nat option \<times> Format"

definition withRefs :: "Format list \<Rightarrow> obj list" where
  "withRefs fs = zip (map Some [0..<length fs]) fs"

text \<open>The condition under which \<open>getFormattedRanges\<close> collects a stored format.\<close>

definition inFormatRange :: "Format \<Rightarrow> Format \<Rightarrow> bool" where
  "inFormatRange e format \<longleftrightarrow>
     (f_from e < f_from format \<and> f_to e \<ge> f_to format) \<or>
     (f_from e \<ge> f_from format \<and> f_to e \<le> f_to format) \<or>
     (f_to e > f_from format \<and> f_to e \<le> f_to format \<and> f_from e < f_from format) \<or>
     (f_from e \<ge> f_from format \<and> f_from e < f_to format \<and> f_to e > f_to format)"

text \<open>
  A stored format is collected when the loop does not skip it (\<open>continue\<close>) and the
  condition holds.
\<close>

definition overlapsRange :: "Format \<Rightarrow> Format \<Rightarrow> bool" where
  "overlapsRange e query \<longleftrightarrow> \<not> f_from e > f_to query \<and> inFormatRange e query"

fun matchLoop :: "Format \<Rightarrow> obj list \<Rightarrow> obj list \<times> obj list \<Rightarrow> obj list \<times> obj list" where
  "matchLoop format [] acc = acc"
| "matchLoop format (x # xs) (matchingFormats, matchingFormatsWithType) =
     (if f_from (snd x) > f_to format
      then matchLoop format xs (matchingFormats, matchingFormatsWithType)
      else if inFormatRange (snd x) format
      then matchLoop format xs
             (matchingFormats @ [x],
              if f_type (snd x) = f_type format
              then matchingFormatsWithType @ [x] else matchingFormatsWithType)
      else matchLoop format xs (matchingFormats, matchingFormatsWithType))"

text \<open>The result \<open>undefined\<close> (no \<open>return\<close> is reached) is \<open>None\<close>.\<close>

definition getFormattedRangesObj :: "obj list \<Rightarrow> Format \<Rightarrow> bool \<Rightarrow> obj list option" where
  "getFormattedRangesObj objs format matchType =
     (let (matchingFormats, matchingFormatsWithType) = matchLoop format objs ([], [])
      in if matchType
         then (if length matchingFormatsWithType = length matchingFormats
               then Some matchingFormatsWithType else None)
         else Some matchingFormats)"

definition getFormattedRanges :: "Format list \<Rightarrow> Format \<Rightarrow> bool \<Rightarrow> Format list option" where
  "getFormattedRanges fs format matchType =
     map_option (map snd) (getFormattedRangesObj (withRefs fs) format matchType)"

subsection \<open>Adding and normalizing formats\<close>

text \<open>
  The comparator handed to \<open>Array.prototype.sort\<close>, and the sort itself: a stable
  sort (as ECMAScript 2019 requires), here by insertion from the right.
\<close>

definition compareFormats :: "Format \<Rightarrow> Format \<Rightarrow> int" where
  "compareFormats formatA formatB =
     (let result = f_from formatA - f_from formatB
      in if result = 0
         then (if f_type formatA > f_type formatB then 1
               else if f_type formatA < f_type formatB then -1
               else 0)
         else result)"

fun insertSorted :: "('a \<Rightarrow> 'a \<Rightarrow> int) \<Rightarrow> 'a \<Rightarrow> 'a list \<Rightarrow> 'a list" where
  "insertSorted cmp x [] = [x]"
| "insertSorted cmp x (y # ys) =
     (if cmp x y \<le> 0 then x # y # ys else y # insertSorted cmp x ys)"

fun sortWith :: "('a \<Rightarrow> 'a \<Rightarrow> int) \<Rightarrow> 'a list \<Rightarrow> 'a list" where
  "sortWith cmp [] = []"
| "sortWith cmp (x # xs) = insertSorted cmp x (sortWith cmp xs)"

definition addNewFormatting :: "Format \<Rightarrow> obj list \<Rightarrow> obj list" where
  "addNewFormatting format objs =
     sortWith (\<lambda>a b. compareFormats (snd a) (snd b)) (objs @ [(None, format)])"

text \<open>
  \<open>normalizeFormats_\<close>: \<open>normalizeLoop lastFormat rest\<close> is the loop with \<open>lastFormat\<close> the
  last element of \<open>newFormats\<close> and \<open>rest\<close> the formats still to visit; the elements
  of \<open>newFormats\<close> before the last one are never touched again.
\<close>

fun normalizeLoop :: "Format \<Rightarrow> Format list \<Rightarrow> Format list" where
  "normalizeLoop lastFormat [] = [lastFormat]"
| "normalizeLoop lastFormat (f # fs) =
     (if f_to lastFormat > f_from f \<or> (f_to lastFormat = f_from f \<and> f_type lastFormat = f_type f)
      then normalizeLoop (lastFormat\<lparr>f_to := f_to f\<rparr>) fs
      else lastFormat # normalizeLoop (clone f) fs)"

fun normalizeFormats :: "Format list \<Rightarrow> Format list" where
  "normalizeFormats [] = []"
| "normalizeFormats (f # fs) = normalizeLoop (clone f) fs"

subsection \<open>Applying a format\<close>

fun indexOf :: "nat option \<Rightarrow> obj list \<Rightarrow> int" where
  "indexOf r [] = -1"
| "indexOf r (x # xs) =
     (if fst x = r then 0 else (let i = indexOf r xs in if i < 0 then -1 else i + 1))"

text \<open>One round of the loop of \<open>format\<close> over the formats found in the range.\<close>

definition formatExisting :: "Format \<Rightarrow> bool \<Rightarrow> obj \<Rightarrow> obj list \<Rightarrow> obj list" where
  "formatExisting format clear original objs =
     (let existingFormat = clone (snd original);
          index = indexOf (fst original) objs
      in if f_attrs format \<noteq> None
         then assignAt index (None, existingFormat\<lparr>f_attrs := f_attrs format\<rparr>) objs
         else if f_to format = f_to existingFormat \<and> f_from format = f_from existingFormat
         then splice1 index objs
         else if f_to format = f_to existingFormat \<or>
                 (f_to format > f_to existingFormat \<and> f_from format < f_to existingFormat \<and> clear)
         then assignAt index (None, existingFormat\<lparr>f_to := f_from format\<rparr>) objs
         else if f_from format = f_from existingFormat \<or>
                 (f_from format < f_from existingFormat \<and> f_to format > f_from existingFormat \<and> clear)
         then assignAt index (None, existingFormat\<lparr>f_from := f_to format\<rparr>) objs
         else if f_to format < f_to existingFormat \<and> f_from format > f_from existingFormat
         then addNewFormatting
                \<lparr>f_type = f_type existingFormat, f_from = f_to format,
                 f_to = f_to existingFormat, f_attrs = None\<rparr>
                (addNewFormatting
                   \<lparr>f_type = f_type existingFormat, f_from = f_from existingFormat,
                    f_to = f_from format, f_attrs = None\<rparr>
                   (splice1 index objs))
         else if \<not> clear
         then assignAt index
                (None, existingFormat\<lparr>f_from := min (f_from existingFormat) (f_from format),
                                        f_to := max (f_to existingFormat) (f_to format)\<rparr>) objs
         else splice1 index objs)"

fun formatLoop :: "Format \<Rightarrow> bool \<Rightarrow> obj list \<Rightarrow> obj list \<Rightarrow> obj list" where
  "formatLoop format clear [] objs = objs"
| "formatLoop format clear (original # rest) objs =
     formatLoop format clear rest (formatExisting format clear original objs)"

text \<open>
  \<open>format(format, clear)\<close>. The parameter is cloned on entry (\<open>format1\<close>); an
  omitted \<open>clear\<close> is \<open>False\<close>. The method calls itself when formats of another
  type lie in the range, and nothing bounds the depth of that recursion, so it is a
  partial function: \<open>None\<close> is a call that does not return (lemma
  \<open>format_may_not_return\<close> shows one).
\<close>

partial_function (option) format :: "Format \<Rightarrow> bool \<Rightarrow> Paragraph \<Rightarrow> Paragraph option" where
  "format format0 clear p =
     (let format1 = clone format0;
          objs = withRefs (p_formats p);
          originalExistingFormats = getFormattedRangesObj objs format1 (\<not> clear)
      in Option.bind
           (case originalExistingFormats of
              Some (x # xs) \<Rightarrow>
                Some (p\<lparr>p_formats := map snd (formatLoop format1 clear (x # xs) objs)\<rparr>)
            | _ \<Rightarrow>
                (case getFormattedRangesObj objs format1 False of
                   Some (y # ys) \<Rightarrow>
                     if \<not> clear
                     then Option.bind (format format1 True p) (\<lambda>p1. format format1 False p1)
                     else Some p
                 | _ \<Rightarrow> Some (p\<lparr>p_formats := map snd (addNewFormatting format1 objs)\<rparr>)))
           (\<lambda>p2. Some (if \<not> clear
                       then p2\<lparr>p_formats := normalizeFormats (p_formats p2)\<rparr>
                       else p2)))"

declare format.simps [code]

fun applyFormats :: "Format list \<Rightarrow> Paragraph \<Rightarrow> Paragraph option" where
  "applyFormats [] p = Some p"
| "applyFormats (f # fs) p = Option.bind (format f False p) (applyFormats fs)"

subsection \<open>Operation descriptors\<close>

text \<open>
  The descriptor of \<open>getUpdateOps\<close>: a list of one pair of operations. \<open>attrs\<close> is
  the object of the attributes to update, of which the method reads \<open>formats\<close>.
\<close>

record operation =
  op :: string
  component :: string
  cursorOffset :: "int option"
  selectRange :: "int option"
  formats :: "Format list option"

record opPair =
  do :: operation
  undo :: operation

record updateAttrs =
  a_formats :: "Format list option"

definition getUpdateOps :: "updateAttrs \<Rightarrow> int option \<Rightarrow> int option \<Rightarrow> Paragraph \<Rightarrow> opPair list" where
  "getUpdateOps attrs optCursorOffset optSelectRange p =
     [\<lparr>do = \<lparr>op = ''updateComponent'', component = p_name p,
              cursorOffset = optCursorOffset, selectRange = optSelectRange,
              formats = a_formats attrs\<rparr>,
       undo = \<lparr>op = ''updateComponent'', component = p_name p,
                cursorOffset = optCursorOffset, selectRange = optSelectRange,
                formats = a_formats attrs\<rparr>\<rparr>]"

subsection \<open>Predicates of the statements\<close>

text \<open>
  The test of \<open>normalizeFormats_\<close> for merging a format into the last one kept, a
  list on which no neighbours pass it, and a list in the order of the comparator of
  \<open>addNewFormatting\<close>.
\<close>

definition mergeable :: "Format \<Rightarrow> Format \<Rightarrow> bool" where
  "mergeable lastFormat f \<longleftrightarrow>
     f_to lastFormat > f_from f \<or> (f_to lastFormat = f_from f \<and> f_type lastFormat = f_type f)"

definition normalized :: "Format list \<Rightarrow> bool" where
  "normalized fs \<longleftrightarrow> successively (\<lambda>a b. \<not> mergeable a b) fs"

definition sortedFormats :: "Format list \<Rightarrow> bool" where
  "sortedFormats fs \<longleftrightarrow> sorted_wrt (\<lambda>a b. compareFormats a b \<le> 0) fs"

text \<open>
  A stored format \<open>e\<close> is clear of \<open>f\<close> when \<open>getFormattedRanges\<close> does not
  collect it for \<open>f\<close> and, if it has the type of \<open>f\<close>, it does not touch \<open>f\<close>.
\<close>

definition clearOf :: "Format \<Rightarrow> Format \<Rightarrow> bool" where
  "clearOf f e \<longleftrightarrow>
     \<not> overlapsRange e f \<and>
     \<not> (f_type e = f_type f \<and> (f_to e = f_from f \<or> f_from e = f_to f))"

text \<open>
  Two half-open ranges \<open>[from, to)\<close> overlap when they share a position, that is when
  the larger of the two starts lies before the smaller of the two ends. The definition
  does not refer to the test of \<open>getFormattedRanges\<close>.
\<close>

definition rangesIntersect :: "Format \<Rightarrow> Format \<Rightarrow> bool" where
  "rangesIntersect e query \<longleftrightarrow>
     max (f_from e) (f_from query) < min (f_to e) (f_to query)"

text \<open>
  Bounds of a range in a text of \<open>n\<close> characters: \<open>inBounds\<close> is
  \<open>0 \<le> from \<le> to \<le> n\<close>; \<open>validRange\<close> asks for a range that is not empty,
  \<open>0 \<le> from < to \<le> n\<close>; \<open>endsInText\<close> only asks each end to lie in
  \<open>[0, n]\<close>.
\<close>

definition inBounds :: "nat \<Rightarrow> Format \<Rightarrow> bool" where
  "inBounds n f \<longleftrightarrow> 0 \<le> f_from f \<and> f_from f \<le> f_to f \<and> f_to f \<le> int n"

definition validRange :: "nat \<Rightarrow> Format \<Rightarrow> bool" where
  "validRange n f \<longleftrightarrow> 0 \<le> f_from f \<and> f_from f < f_to f \<and> f_to f \<le> int n"

definition endsInText :: "nat \<Rightarrow> Format \<Rightarrow> bool" where
  "endsInText n f \<longleftrightarrow>
     0 \<le> f_from f \<and> f_from f \<le> int n \<and> 0 \<le> f_to f \<and> f_to f \<le> int n"

text \<open>
  Where a range lies with respect to the characters \<open>[index, index + count)\<close> that
  \<open>removeCharactersAt\<close> removes: wholly inside them, or beside them (wholly before,
  wholly after, or starting before and ending after them).
\<close>

definition insideRemoval :: "int \<Rightarrow> int \<Rightarrow> Format \<Rightarrow> bool" where
  "insideRemoval index count f \<longleftrightarrow> index \<le> f_from f \<and> f_to f \<le> index + count"

definition besideRemoval :: "int \<Rightarrow> int \<Rightarrow> Format \<Rightarrow> bool" where
  "besideRemoval index count f \<longleftrightarrow>
     f_to f \<le> index \<or> index + count \<le> f_from f \<or>
     (f_from f < index \<and> index + count \<le> f_to f)"

subsection \<open>Concrete paragraphs\<close>

text \<open>Shorthands for the concrete formats and paragraphs of the examples below.\<close>

definition fmt :: "string \<Rightarrow> int \<Rightarrow> int \<Rightarrow> Format" where
  "fmt t a b = \<lparr>f_type = t, f_from = a, f_to = b, f_attrs = None\<rparr>"

definition exampleParagraph :: "string \<Rightarrow> Format list \<Rightarrow> Paragraph" where
  "exampleParagraph t fs =
     \<lparr>p_name = ''p1'', p_text = t, p_placeholderText = None, p_paragraphType = ''p'',
      p_formats = fs\<rparr>"

text \<open>
  A link format carrying attrs, a paragraph with a bold and an italic range under it, and
  the same paragraph once the link's attrs are written to both ranges.
\<close>

definition linkFormat :: Format where
  "linkFormat = \<lparr>f_type = ''a'', f_from = 1, f_to = 5, f_attrs = Some [(''href'', ''x'')]\<rparr>"

definition mixedParagraph :: Paragraph where
  "mixedParagraph = exampleParagraph ''abcdef'' [fmt ''b'' 0 3, fmt ''i'' 3 6]"

definition mixedParagraphLinked :: Paragraph where
  "mixedParagraphLinked = exampleParagraph ''abcdef''
     [(fmt ''b'' 0 3)\<lparr>f_attrs := Some [(''href'', ''x'')]\<rparr>,
      (fmt ''i'' 3 6)\<lparr>f_attrs := Some [(''href'', ''x'')]\<rparr>]"

definition linkedObjs :: "obj list" where
  "linkedObjs = withRefs (p_formats mixedParagraphLinked)"

section \<open>Text splices\<close>

lemma clampIndex_eq: "clampIndex s i = min (nat i) (length s)"
  by (auto simp: clampIndex_def min_def max_def)

lemma substring_0: "substring s 0 b = take (nat b) s"
  by (simp add: substring_def clampIndex_eq min_def)

lemma substringFrom_drop: "substringFrom s a = drop (nat a) s"
  by (simp add: substringFrom_def clampIndex_eq min_def)

lemma p_text_insertCharactersAt:
  "p_text (insertCharactersAt chars index p) =
     take (nat index) (p_text p) @ chars @ drop (nat index) (p_text p)"
  by (simp add: insertCharactersAt_def setText_def substring_0 substringFrom_drop)

lemma p_text_removeCharactersAt:
  "p_text (removeCharactersAt index count p) =
     take (nat index) (p_text p) @ drop (nat (index + count)) (p_text p)"
  by (simp add: removeCharactersAt_def setText_def substring_0 substringFrom_drop)

lemma p_formats_insertCharactersAt:
  "p_formats (insertCharactersAt chars index p)
     = shiftFormatsFrom index (int (length chars)) (p_formats p)"
  by (simp add: insertCharactersAt_def setText_def)

lemma p_formats_removeCharactersAt:
  "p_formats (removeCharactersAt index count p) = shiftFormatsFrom index (- count) (p_formats p)"
  by (simp add: removeCharactersAt_def setText_def)

lemma length_insertCharactersAt:
  "length (p_text (insertCharactersAt chars index p)) = length (p_text p) + length chars"
  by (simp add: p_text_insertCharactersAt)

lemma length_removeCharactersAt:
  assumes "0 \<le> index" and "0 \<le> count" and "index + count \<le> int (length (p_text p))"
  shows "int (length (p_text (removeCharactersAt index count p))) = int (length (p_text p)) - count"
proof -
  let ?t = "p_text p"
  have a: "nat index \<le> length ?t" and b: "nat (index + count) \<le> length ?t"
    using assms by linarith+
  have "length (take (nat index) ?t @ drop (nat (index + count)) ?t)
          = nat index + (length ?t - nat (index + count))"
    using a by simp
  also have "int \<dots> = int (length ?t) - count"
    using assms a b by linarith
  finally show ?thesis by (simp only: p_text_removeCharactersAt)
qed

text \<open>
  C8. For every text, every index with \<open>0 \<le> index \<le> text.length\<close> and every string
  \<open>chars\<close>, \<open>insertCharactersAt(chars, index)\<close> followed by
  \<open>removeCharactersAt(index, chars.length)\<close> restores the original text.
\<close>

theorem insert_then_remove_restores_text:
  assumes "0 \<le> index" and "index \<le> int (length (p_text p))"
  shows "p_text (removeCharactersAt index (int (length chars)) (insertCharactersAt chars index p))
           = p_text p"
proof -
  let ?t = "p_text p"
  let ?i = "nat index"
  from assms have len: "length (take ?i ?t) = ?i" by simp
  have n: "nat (index + int (length chars)) = ?i + length chars"
    using assms by simp
  have "take ?i (take ?i ?t @ chars @ drop ?i ?t) = take ?i ?t"
    using len by simp
  moreover have "drop (?i + length chars) (take ?i ?t @ chars @ drop ?i ?t) = drop ?i ?t"
    using len by simp
  ultimately show ?thesis
    by (simp only: p_text_removeCharactersAt p_text_insertCharactersAt n append_take_drop_id)
qed

theorem insert_then_remove_restores_text_witness:
  "(0::int) \<le> 2 \<and> 2 \<le> int (length (p_text (exampleParagraph ''hello'' []))) \<and>
   p_text (removeCharactersAt 2 (int (length ''xy''))
            (insertCharactersAt ''xy'' 2 (exampleParagraph ''hello'' []))) = ''hello''"
  using insert_then_remove_restores_text [of 2 "exampleParagraph ''hello'' []" "''xy''"]
  by (simp add: exampleParagraph_def)

text \<open>
  C10. \<open>insertCharactersAt\<close> and \<open>removeCharactersAt\<close> signal no error for any
  index or count (both are total functions here: the source has no \<open>throw\<close>, and
  \<open>substring\<close>, \<open>join\<close> and \<open>splice\<close> do not throw on numbers). An index
  beyond the text appends the characters at the end; a removal reaching beyond the end
  removes from the index through the end; the formats are shifted with the raw index and
  count in both. In the example the removal of 10 characters at index 1 of \<open>abc\<close>
  leaves \<open>a\<close> and moves the end of the format from 3 to -7.
\<close>

theorem splices_clamp_text_shift_raw:
  "(int (length (p_text p)) < index \<longrightarrow>
      p_text (insertCharactersAt chars index p) = p_text p @ chars) \<and>
   (int (length (p_text p)) < index + count \<longrightarrow>
      p_text (removeCharactersAt index count p) = take (nat index) (p_text p)) \<and>
   p_formats (insertCharactersAt chars index p)
     = shiftFormatsFrom index (int (length chars)) (p_formats p) \<and>
   p_formats (removeCharactersAt index count p)
     = shiftFormatsFrom index (- count) (p_formats p)"
proof (intro conjI impI)
  assume "int (length (p_text p)) < index"
  then have "length (p_text p) \<le> nat index" by linarith
  then show "p_text (insertCharactersAt chars index p) = p_text p @ chars"
    by (simp add: p_text_insertCharactersAt)
next
  assume "int (length (p_text p)) < index + count"
  then have "length (p_text p) \<le> nat (index + count)" by linarith
  then show "p_text (removeCharactersAt index count p) = take (nat index) (p_text p)"
    by (simp add: p_text_removeCharactersAt)
next
  show "p_formats (insertCharactersAt chars index p)
          = shiftFormatsFrom index (int (length chars)) (p_formats p)"
    by (rule p_formats_insertCharactersAt)
next
  show "p_formats (removeCharactersAt index count p)
          = shiftFormatsFrom index (- count) (p_formats p)"
    by (rule p_formats_removeCharactersAt)
qed

theorem splices_clamp_text_shift_raw_witness:
  "int (length (p_text (exampleParagraph ''abc'' [fmt ''b'' 0 3]))) < 7 \<and>
   p_text (insertCharactersAt ''xy'' 7 (exampleParagraph ''abc'' [fmt ''b'' 0 3])) = ''abcxy'' \<and>
   int (length (p_text (exampleParagraph ''abc'' [fmt ''b'' 0 3]))) < 1 + 10 \<and>
   p_text (removeCharactersAt 1 10 (exampleParagraph ''abc'' [fmt ''b'' 0 3])) = ''a'' \<and>
   p_formats (removeCharactersAt 1 10 (exampleParagraph ''abc'' [fmt ''b'' 0 3]))
     = [fmt ''b'' 0 (- 7)]"
  using splices_clamp_text_shift_raw [of "exampleParagraph ''abc'' [fmt ''b'' 0 3]" 7 "''xy''" 10]
    splices_clamp_text_shift_raw [of "exampleParagraph ''abc'' [fmt ''b'' 0 3]" 1 "''xy''" 10]
  by (simp add: exampleParagraph_def fmt_def shiftFormatsFrom_def shiftFormat_def
      inShiftedRange_def splice1_def)

section \<open>Shifting formats\<close>

lemma shiftLoop_snd: "snd (shiftLoop s d i fs) = map (shiftFormat s d) fs"
  by (induction fs arbitrary: i) (simp_all add: split_beta)

lemma shiftLoop_fst_Nil:
  "\<forall>f\<in>set fs. \<not> inShiftedRange s d f \<Longrightarrow> fst (shiftLoop s d i fs) = []"
  by (induction fs arbitrary: i) (simp_all add: split_beta)

lemma shiftFormatsFrom_no_removal:
  assumes "\<forall>f\<in>set fs. \<not> inShiftedRange s d f"
  shows "shiftFormatsFrom s d fs = map (shiftFormat s d) fs"
proof -
  obtain r fs' where eq: "shiftLoop s d 0 fs = (r, fs')" by (cases "shiftLoop s d 0 fs")
  from shiftLoop_fst_Nil[OF assms, of 0] eq have "r = []" by simp
  moreover from shiftLoop_snd[of s d 0 fs] eq have "fs' = map (shiftFormat s d) fs" by simp
  ultimately show ?thesis by (simp add: shiftFormatsFrom_def eq)
qed

lemma shiftFormat_back:
  "shiftFormat s (- n) (shiftFormat s n f) = f" if "0 \<le> n"
  using that by (cases f) (simp add: shiftFormat_def Let_def)

lemma shiftFormatsFrom_inverse:
  assumes "0 \<le> n"
    and "\<forall>f\<in>set fs. \<not> (s \<le> f_from f \<and> f_to f \<le> s + n)"
  shows "shiftFormatsFrom s (- n) (shiftFormatsFrom s n fs) = fs"
proof -
  have 1: "\<forall>f\<in>set fs. \<not> inShiftedRange s n f"
    using assms by (auto simp: inShiftedRange_def)
  have 2: "\<forall>g\<in>set (map (shiftFormat s n) fs). \<not> inShiftedRange s (- n) g"
    using assms by (auto simp: inShiftedRange_def shiftFormat_def Let_def split: if_splits)
  have "shiftFormatsFrom s (- n) (shiftFormatsFrom s n fs)
          = map (shiftFormat s (- n)) (map (shiftFormat s n) fs)"
    by (simp only: shiftFormatsFrom_no_removal[OF 1] shiftFormatsFrom_no_removal[OF 2])
  also have "\<dots> = fs"
    using assms(1) by (simp add: shiftFormat_back map_idI)
  finally show ?thesis .
qed

text \<open>
  C9. For every start index \<open>s \<ge> 0\<close>, every \<open>n > 0\<close> and every format list none
  of whose ranges lies wholly inside \<open>[s, s+n)\<close>, \<open>shiftFormatsFrom_(s, +n)\<close>
  followed by \<open>shiftFormatsFrom_(s, -n)\<close> restores the list. A range lies wholly
  inside when \<open>s \<le> from\<close> and \<open>to \<le> s + n\<close>.
\<close>

theorem shift_forward_then_back:
  assumes "0 \<le> s" and "0 < n"
    and "\<forall>f\<in>set fs. \<not> (s \<le> f_from f \<and> f_to f \<le> s + n)"
  shows "shiftFormatsFrom s (- n) (shiftFormatsFrom s n fs) = fs"
  using assms(2,3) by (intro shiftFormatsFrom_inverse) simp_all

theorem shift_forward_then_back_witness:
  "(0::int) \<le> 2 \<and> (0::int) < 3 \<and>
   \<not> (2 \<le> f_from (fmt ''b'' 0 4) \<and> f_to (fmt ''b'' 0 4) \<le> 2 + 3) \<and>
   \<not> (2 \<le> f_from (fmt ''i'' 3 9) \<and> f_to (fmt ''i'' 3 9) \<le> 2 + 3) \<and>
   shiftFormatsFrom 2 (- 3) (shiftFormatsFrom 2 3 [fmt ''b'' 0 4, fmt ''i'' 3 9])
     = [fmt ''b'' 0 4, fmt ''i'' 3 9]"
  using shift_forward_then_back [of 2 3 "[fmt ''b'' 0 4, fmt ''i'' 3 9]"]
  by (simp add: fmt_def)

text \<open>
  When at most one format is marked for removal, the second loop removes exactly that
  one: the indices recorded by the first loop go stale only after the first removal.
\<close>

lemma splice1_middle: "splice1 (int (length A)) (A @ x # B) = A @ B"
  by (simp add: splice1_def)

lemma shiftLoop_append:
  "shiftLoop s d i (xs @ ys) =
     (fst (shiftLoop s d i xs) @ fst (shiftLoop s d (i + length xs) ys),
      snd (shiftLoop s d i xs) @ snd (shiftLoop s d (i + length xs) ys))"
  by (induction xs arbitrary: i) (simp_all add: split_beta)

lemma shiftFormatsFrom_one_removal:
  assumes us: "\<forall>f\<in>set us. \<not> inShiftedRange s d f" and e: "inShiftedRange s d e"
    and vs: "\<forall>f\<in>set vs. \<not> inShiftedRange s d f"
  shows "shiftFormatsFrom s d (us @ e # vs) = map (shiftFormat s d) (us @ vs)"
proof -
  have "fst (shiftLoop s d 0 (us @ e # vs)) = [length us]"
    using e by (simp add: shiftLoop_append shiftLoop_fst_Nil[OF us] shiftLoop_fst_Nil[OF vs] split_beta)
  moreover have "snd (shiftLoop s d 0 (us @ e # vs)) = map (shiftFormat s d) (us @ e # vs)"
    by (rule shiftLoop_snd)
  ultimately have "shiftFormatsFrom s d (us @ e # vs)
      = splice1 (int (length (map (shiftFormat s d) us)))
          (map (shiftFormat s d) us @ shiftFormat s d e # map (shiftFormat s d) vs)"
    by (simp add: shiftFormatsFrom_def split_beta)
  then show ?thesis by (simp only: splice1_middle map_append)
qed

lemma shiftFormatsFrom_at_most_one:
  assumes "length (filter (inShiftedRange s d) fs) \<le> 1"
  shows "shiftFormatsFrom s d fs = map (shiftFormat s d) (filter (\<lambda>f. \<not> inShiftedRange s d f) fs)"
proof (cases "filter (inShiftedRange s d) fs")
  case Nil
  then have none: "\<forall>f\<in>set fs. \<not> inShiftedRange s d f"
    by (simp add: filter_empty_conv)
  then have "filter (\<lambda>f. \<not> inShiftedRange s d f) fs = fs" by simp
  then show ?thesis using shiftFormatsFrom_no_removal[OF none] by simp
next
  case (Cons e rest)
  with assms have rest: "rest = []" by simp
  from Cons obtain us vs where fs: "fs = us @ e # vs"
    and us: "\<forall>u\<in>set us. \<not> inShiftedRange s d u" and e: "inShiftedRange s d e"
    and r: "rest = filter (inShiftedRange s d) vs"
    unfolding filter_eq_Cons_iff by blast
  from r rest have "filter (inShiftedRange s d) vs = []" by simp
  then have vs: "\<forall>f\<in>set vs. \<not> inShiftedRange s d f"
    by (simp add: filter_empty_conv)
  have "filter (\<lambda>f. \<not> inShiftedRange s d f) fs = us @ vs"
    unfolding fs using us e vs by simp
  then show ?thesis
    unfolding fs using shiftFormatsFrom_one_removal[OF us e vs] by simp
qed

text \<open>
  C2. \<open>removeCharactersAt(index, count)\<close> is meant to drop every format lying wholly
  inside the removed characters. With two such formats the code drops only the first:
  after the first \<open>splice\<close> the second recorded index points past the format it was
  recorded for. Removing the characters \<open>[1, 4)\<close> of \<open>abcdef\<close> with the formats
  \<open>b [1, 2)\<close> and \<open>i [2, 3)\<close>, both inside, leaves the format \<open>i [-1, 0)\<close>.
\<close>

theorem removeCharactersAt_keeps_second_inner_format:
  "(1 \<le> f_from (fmt ''b'' 1 2) \<and> f_to (fmt ''b'' 1 2) \<le> 1 + 3) \<and>
   (1 \<le> f_from (fmt ''i'' 2 3) \<and> f_to (fmt ''i'' 2 3) \<le> 1 + 3) \<and>
   removeCharactersAt 1 3 (exampleParagraph ''abcdef'' [fmt ''b'' 1 2, fmt ''i'' 2 3])
     = exampleParagraph ''aef'' [fmt ''i'' (- 1) 0]"
  by (simp add: fmt_def exampleParagraph_def removeCharactersAt_def setText_def substring_def
      substringFrom_def clampIndex_def shiftFormatsFrom_def shiftFormat_def inShiftedRange_def
      splice1_def)

section \<open>Overlap queries\<close>

lemma matchLoop_filter:
  "matchLoop q xs (m, mt) =
     (m @ filter (\<lambda>x. overlapsRange (snd x) q) xs,
      mt @ filter (\<lambda>x. overlapsRange (snd x) q \<and> f_type (snd x) = f_type q) xs)"
  by (induction xs arbitrary: m mt) (auto simp: overlapsRange_def)

lemma length_filter_conj_eq:
  "length (filter (\<lambda>x. P x \<and> Q x) xs) = length (filter P xs) \<longleftrightarrow> (\<forall>x\<in>set (filter P xs). Q x)"
proof (induction xs)
  case Nil
  then show ?case by simp
next
  case (Cons x xs)
  have le: "length (filter (\<lambda>x. P x \<and> Q x) xs) \<le> length (filter P xs)"
    by (induction xs) auto
  show ?case using Cons le by auto
qed

lemma filter_conj_all: "\<forall>x\<in>set (filter P xs). Q x \<Longrightarrow> filter (\<lambda>x. P x \<and> Q x) xs = filter P xs"
  by (induction xs) auto

lemma getFormattedRangesObj_False:
  "getFormattedRangesObj objs q False = Some (filter (\<lambda>x. overlapsRange (snd x) q) objs)"
  by (simp add: getFormattedRangesObj_def matchLoop_filter)

lemma getFormattedRangesObj_True:
  "getFormattedRangesObj objs q True =
     (if \<forall>x\<in>set (filter (\<lambda>x. overlapsRange (snd x) q) objs). f_type (snd x) = f_type q
      then Some (filter (\<lambda>x. overlapsRange (snd x) q) objs) else None)"
  by (simp add: getFormattedRangesObj_def matchLoop_filter length_filter_conj_eq filter_conj_all)

lemma getFormattedRangesObj_subset:
  "getFormattedRangesObj objs q m = Some os \<Longrightarrow> set os \<subseteq> set objs"
  by (cases m) (auto simp: getFormattedRangesObj_True getFormattedRangesObj_False split: if_splits)

lemma map_snd_withRefs: "map snd (withRefs fs) = fs"
  by (simp add: withRefs_def)

lemma map_snd_filter_withRefs:
  "map snd (filter (\<lambda>x. P (snd x)) (withRefs fs)) = filter P fs"
proof -
  have "map snd (filter (\<lambda>x. P (snd x)) (zip rs fs)) = filter P fs"
    if "length rs = length fs" for rs :: "nat option list"
    using that by (induction rs fs rule: list_induct2) auto
  then show ?thesis by (simp add: withRefs_def)
qed

lemma set_filter_withRefs:
  "(\<forall>x\<in>set (filter (\<lambda>x. P (snd x)) (withRefs fs)). Q (snd x))
     \<longleftrightarrow> (\<forall>e\<in>set (filter P fs). Q e)"
proof -
  have "(\<forall>x\<in>set (filter (\<lambda>x. P (snd x)) (withRefs fs)). Q (snd x))
      \<longleftrightarrow> (\<forall>e\<in>set (map snd (filter (\<lambda>x. P (snd x)) (withRefs fs))). Q e)"
    by (simp only: set_map ball_simps)
  then show ?thesis by (simp only: map_snd_filter_withRefs)
qed

lemma set_withRefs_snd: "x \<in> set (withRefs fs) \<Longrightarrow> snd x \<in> set fs"
  unfolding withRefs_def by (cases x) (auto dest: set_zip_rightD)

lemma filter_withRefs_Nil:
  "\<forall>e\<in>set fs. \<not> P e \<Longrightarrow> filter (\<lambda>x. P (snd x)) (withRefs fs) = []"
  by (auto simp: filter_empty_conv dest: set_withRefs_snd)

lemma filter_snd_Nil:
  "\<forall>e\<in>set (map snd B). \<not> P e \<Longrightarrow> filter (\<lambda>x. P (snd x)) B = []"
  by (auto simp: filter_empty_conv)

lemma fst_withRefs: "fst ` set (withRefs as) = Some ` {0..<length as}"
proof -
  have "map fst (withRefs as) = map Some [0..<length as]"
    by (simp add: withRefs_def)
  then have "set (map fst (withRefs as)) = set (map Some [0..<length as])" by simp
  then show ?thesis by (simp only: set_map set_upt)
qed

lemma withRefs_append_Cons:
  "withRefs (as @ e # bs) =
     withRefs as @ (Some (length as), e) # zip (map Some [Suc (length as)..<Suc (length as + length bs)]) bs"
proof -
  have "[0..<length as + Suc (length bs)]
          = [0..<length as] @ length as # [Suc (length as)..<Suc (length as + length bs)]"
    by (metis add_Suc_right le_add1 upt_add_eq_append upt_conv_Cons zero_le lessI less_add_Suc1 add_0)
  then show ?thesis by (simp add: withRefs_def)
qed

lemma withRefs_split:
  obtains B where "withRefs (as @ e # bs) = withRefs as @ (Some (length as), e) # B"
    and "map snd B = bs"
proof
  show "withRefs (as @ e # bs) =
          withRefs as @ (Some (length as), e)
            # zip (map Some [Suc (length as)..<Suc (length as + length bs)]) bs"
    by (rule withRefs_append_Cons)
  show "map snd (zip (map Some [Suc (length as)..<Suc (length as + length bs)]) bs) = bs"
    by (rule map_snd_zip) (simp only: length_map length_upt diff_Suc_Suc add_diff_cancel_left')
qed

text \<open>
  \<open>rangesIntersect\<close> holds exactly when some position lies in both ranges.
\<close>

lemma rangesIntersect_iff_common_position:
  "rangesIntersect e q \<longleftrightarrow>
     (\<exists>i. f_from e \<le> i \<and> i < f_to e \<and> f_from q \<le> i \<and> i < f_to q)"
proof
  assume "rangesIntersect e q"
  then have "f_from e \<le> max (f_from e) (f_from q) \<and> max (f_from e) (f_from q) < f_to e \<and>
             f_from q \<le> max (f_from e) (f_from q) \<and> max (f_from e) (f_from q) < f_to q"
    by (simp add: rangesIntersect_def)
  then show "\<exists>i. f_from e \<le> i \<and> i < f_to e \<and> f_from q \<le> i \<and> i < f_to q" ..
next
  assume "\<exists>i. f_from e \<le> i \<and> i < f_to e \<and> f_from q \<le> i \<and> i < f_to q"
  then obtain i where "f_from e \<le> i" "i < f_to e" "f_from q \<le> i" "i < f_to q" by blast
  then show "rangesIntersect e q" by (simp add: rangesIntersect_def)
qed

text \<open>
  For ranges that are not empty, the stored formats that \<open>getFormattedRanges\<close>
  collects are those whose range overlaps the query's.
\<close>

lemma overlapsRange_iff_rangesIntersect:
  assumes "f_from e < f_to e" and "f_from q < f_to q"
  shows "overlapsRange e q \<longleftrightarrow> rangesIntersect e q"
  using assms by (auto simp: overlapsRange_def inFormatRange_def rangesIntersect_def)

text \<open>
  With \<open>matchType\<close> set, the method returns the formats its loop collected when all of
  them have the query's type, and \<open>undefined\<close> otherwise.
\<close>

lemma getFormattedRanges_collected:
  "getFormattedRanges fs query True =
     (if \<forall>e\<in>set (filter (\<lambda>e. overlapsRange e query) fs). f_type e = f_type query
      then Some (filter (\<lambda>e. overlapsRange e query) fs)
      else None)"
proof -
  let ?P = "\<lambda>x::obj. overlapsRange (snd x) query"
  let ?Q = "\<lambda>x::obj. f_type (snd x) = f_type query"
  have eq: "getFormattedRangesObj (withRefs fs) query True =
          (if \<forall>x\<in>set (filter ?P (withRefs fs)). ?Q x then Some (filter ?P (withRefs fs)) else None)"
    by (rule getFormattedRangesObj_True)
  have all: "(\<forall>x\<in>set (filter ?P (withRefs fs)). ?Q x)
     \<longleftrightarrow> (\<forall>e\<in>set (filter (\<lambda>e. overlapsRange e query) fs). f_type e = f_type query)"
    by (rule set_filter_withRefs [of "\<lambda>e. overlapsRange e query" fs "\<lambda>e. f_type e = f_type query"])
  show ?thesis
    unfolding getFormattedRanges_def eq all
    using map_snd_filter_withRefs [of "\<lambda>e. overlapsRange e query" fs] by simp
qed

text \<open>
  C5, as stated, fails on empty ranges. No stored format overlaps the empty query
  range \<open>[3, 3)\<close>, so every overlapping stored format has the query's type and the
  empty list is expected; the stored italic \<open>[0, 5)\<close> around it is collected all the
  same, and the result is \<open>undefined\<close> (\<open>None\<close>). Likewise the empty stored italic
  \<open>[5, 5)\<close> does not overlap the bold query \<open>[2, 5)\<close>, and the result is
  \<open>undefined\<close>.
\<close>

theorem getFormattedRanges_undefined_without_overlap:
  "filter (\<lambda>e. rangesIntersect e (fmt ''b'' 3 3)) [fmt ''i'' 0 5] = [] \<and>
   getFormattedRanges [fmt ''i'' 0 5] (fmt ''b'' 3 3) True = None \<and>
   filter (\<lambda>e. rangesIntersect e (fmt ''b'' 2 5)) [fmt ''i'' 5 5] = [] \<and>
   getFormattedRanges [fmt ''i'' 5 5] (fmt ''b'' 2 5) True = None"
  by code_simp

text \<open>
  C5, amended. For every query format whose range is not empty and every format list
  whose ranges are not empty, \<open>getFormattedRanges(query, true)\<close> returns the list of
  the stored formats whose range overlaps \<open>[query.from, query.to)\<close>, in their stored
  order, exactly when every such format has the query's type, and returns nothing
  (\<open>undefined\<close>, here \<open>None\<close>, not an empty list) when some such format has another
  type.
\<close>

theorem getFormattedRanges_matchType_nonempty:
  assumes query: "f_from query < f_to query"
    and stored: "\<forall>e\<in>set fs. f_from e < f_to e"
  shows "getFormattedRanges fs query True =
     (if \<forall>e\<in>set (filter (\<lambda>e. rangesIntersect e query) fs). f_type e = f_type query
      then Some (filter (\<lambda>e. rangesIntersect e query) fs)
      else None)"
proof -
  have "filter (\<lambda>e. overlapsRange e query) fs = filter (\<lambda>e. rangesIntersect e query) fs"
  proof (rule filter_cong[OF refl])
    fix e assume "e \<in> set fs"
    with stored have "f_from e < f_to e" by (rule bspec)
    then show "overlapsRange e query = rangesIntersect e query"
      using query by (rule overlapsRange_iff_rangesIntersect)
  qed
  then show ?thesis by (simp only: getFormattedRanges_collected)
qed

text \<open>
  The query is bold \<open>[1, 4)\<close>. In the first list the italic ranges \<open>[0, 1)\<close> and
  \<open>[4, 7)\<close> touch the query without overlapping it and are not collected, the
  italic \<open>[8, 9)\<close> is skipped, and the two bold ranges are returned. In the second
  list the italic \<open>[2, 6)\<close> overlaps the query and nothing is returned.
\<close>

theorem getFormattedRanges_matchType_nonempty_witness:
  "f_from (fmt ''b'' 1 4) < f_to (fmt ''b'' 1 4) \<and>
   list_all (\<lambda>e. f_from e < f_to e)
     [fmt ''i'' 0 1, fmt ''b'' 0 3, fmt ''b'' 2 6, fmt ''i'' 4 7, fmt ''i'' 8 9] \<and>
   getFormattedRanges [fmt ''i'' 0 1, fmt ''b'' 0 3, fmt ''b'' 2 6, fmt ''i'' 4 7, fmt ''i'' 8 9]
     (fmt ''b'' 1 4) True = Some [fmt ''b'' 0 3, fmt ''b'' 2 6] \<and>
   list_all (\<lambda>e. f_from e < f_to e) [fmt ''b'' 0 1, fmt ''b'' 0 3, fmt ''i'' 2 6, fmt ''b'' 8 9] \<and>
   getFormattedRanges [fmt ''b'' 0 1, fmt ''b'' 0 3, fmt ''i'' 2 6, fmt ''b'' 8 9]
     (fmt ''b'' 1 4) True = None"
  using getFormattedRanges_matchType_nonempty
      [of "fmt ''b'' 1 4" "[fmt ''i'' 0 1, fmt ''b'' 0 3, fmt ''b'' 2 6, fmt ''i'' 4 7, fmt ''i'' 8 9]"]
    getFormattedRanges_matchType_nonempty
      [of "fmt ''b'' 1 4" "[fmt ''b'' 0 1, fmt ''b'' 0 3, fmt ''i'' 2 6, fmt ''b'' 8 9]"]
  by (simp add: fmt_def rangesIntersect_def)

section \<open>Normalization\<close>

lemma normalizeLoop_Cons:
  "normalizeLoop l (f # fs) =
     (if mergeable l f then normalizeLoop (l\<lparr>f_to := f_to f\<rparr>) fs else l # normalizeLoop f fs)"
  by (simp add: mergeable_def clone_def)

lemma normalizeLoop_hd:
  "normalizeLoop l fs \<noteq> [] \<and> f_from (hd (normalizeLoop l fs)) = f_from l \<and>
   f_type (hd (normalizeLoop l fs)) = f_type l"
  by (induction fs arbitrary: l) (simp_all add: clone_def)

lemma normalizeLoop_normalized: "normalized (normalizeLoop l fs)"
proof (induction fs arbitrary: l)
  case Nil
  then show ?case by (simp add: normalized_def)
next
  case (Cons f fs)
  show ?case
  proof (cases "mergeable l f")
    case True
    then show ?thesis using Cons[of "l\<lparr>f_to := f_to f\<rparr>"] by (simp only: normalizeLoop_Cons if_True)
  next
    case False
    have "\<not> mergeable l (hd (normalizeLoop f fs))"
      using False normalizeLoop_hd[of f fs] by (simp add: mergeable_def)
    then have "normalized (l # normalizeLoop f fs)"
      using Cons[of f] by (simp add: normalized_def successively_Cons)
    then show ?thesis using False by (simp only: normalizeLoop_Cons if_False)
  qed
qed

lemma normalizeFormats_normalized: "normalized (normalizeFormats fs)"
proof (cases fs)
  case Nil
  then show ?thesis by (simp add: normalized_def)
next
  case (Cons f fs')
  then show ?thesis by (simp add: normalizeLoop_normalized clone_def)
qed

lemma normalizeLoop_fixed:
  "normalized (l # fs) \<Longrightarrow> normalizeLoop l fs = l # fs"
proof (induction fs arbitrary: l)
  case Nil
  then show ?case by simp
next
  case (Cons f fs)
  from Cons.prems have "\<not> mergeable l f" and "normalized (f # fs)"
    by (simp_all add: normalized_def)
  then show ?case using Cons.IH[of f] by (simp only: normalizeLoop_Cons if_False)
qed

lemma normalizeFormats_fixed: "normalized fs \<Longrightarrow> normalizeFormats fs = fs"
  by (cases fs) (simp_all add: normalizeLoop_fixed clone_def)

lemma normalized_iff_fixed: "normalized fs \<longleftrightarrow> normalizeFormats fs = fs"
proof
  assume "normalized fs"
  then show "normalizeFormats fs = fs" by (rule normalizeFormats_fixed)
next
  assume "normalizeFormats fs = fs"
  then show "normalized fs" using normalizeFormats_normalized[of fs] by simp
qed

text \<open>
  \<open>normalizeFormats_\<close> is idempotent on every list: once a format is kept, its
  \<open>from\<close> and \<open>type\<close> and the \<open>to\<close> of the format before it are final.
\<close>

lemma normalizeFormats_idempotent:
  "normalizeFormats (normalizeFormats fs) = normalizeFormats fs"
  by (rule normalizeFormats_fixed) (rule normalizeFormats_normalized)

text \<open>
  C4. \<open>normalizeFormats_\<close> is meant to merge only touching or overlapping ranges of
  one type, keeping for every type the positions it covers. The code merges an
  overlapping range whatever its type, and sets the end of the merged range to the end
  of the later range instead of the larger end: \<open>b [0, 5)\<close> and \<open>i [3, 8)\<close>
  become \<open>b [0, 8)\<close>, and \<open>b [0, 10)\<close> and \<open>b [2, 5)\<close> become
  \<open>b [0, 5)\<close>.
\<close>

theorem normalizeFormats_loses_coverage:
  "normalizeFormats [fmt ''b'' 0 5, fmt ''i'' 3 8] = [fmt ''b'' 0 8] \<and>
   normalizeFormats [fmt ''b'' 0 10, fmt ''b'' 2 5] = [fmt ''b'' 0 5]"
  by (simp add: fmt_def clone_def)

section \<open>Applying a format\<close>

lemma compareFormats_le0:
  "compareFormats a b \<le> 0 \<longleftrightarrow>
     f_from a < f_from b \<or> (f_from a = f_from b \<and> f_type a \<le> f_type b)"
  by (auto simp: compareFormats_def Let_def)

lemma insertSorted_head:
  "ys = [] \<or> cmp x (hd ys) \<le> 0 \<Longrightarrow> insertSorted cmp x ys = x # ys"
  by (cases ys) auto

lemma map_snd_insertSorted:
  "map snd (insertSorted (\<lambda>a b. cmp (snd a) (snd b)) x ys) = insertSorted cmp (snd x) (map snd ys)"
  by (induction ys) auto

lemma map_snd_sortWith:
  "map snd (sortWith (\<lambda>a b. cmp (snd a) (snd b)) xs) = sortWith cmp (map snd xs)"
  by (induction xs) (simp_all add: map_snd_insertSorted)

lemma map_snd_addNewFormatting:
  "map snd (addNewFormatting f (withRefs fs)) = sortWith compareFormats (fs @ [f])"
  by (simp add: addNewFormatting_def map_snd_sortWith map_snd_withRefs)

lemma sortWith_insert_last:
  assumes "sortedFormats fs"
    and "\<forall>e\<in>set fs. f_from e \<noteq> f_from f"
  shows "sortWith compareFormats (fs @ [f]) =
           takeWhile (\<lambda>e. f_from e < f_from f) fs @ f # dropWhile (\<lambda>e. f_from e < f_from f) fs"
  using assms
proof (induction fs)
  case Nil
  then show ?case by simp
next
  case (Cons x xs)
  let ?B = "\<lambda>e. f_from e < f_from f"
  from Cons.prems have sx: "\<forall>y\<in>set xs. compareFormats x y \<le> 0" and sxs: "sortedFormats xs"
    by (simp_all add: sortedFormats_def)
  from Cons.prems have ne: "\<forall>e\<in>set xs. f_from e \<noteq> f_from f" and nx: "f_from x \<noteq> f_from f"
    by simp_all
  have IH: "sortWith compareFormats (xs @ [f]) = takeWhile ?B xs @ f # dropWhile ?B xs"
    using Cons.IH sxs ne by simp
  show ?case
  proof (cases "f_from x < f_from f")
    case True
    have "compareFormats x (hd (takeWhile ?B xs @ f # dropWhile ?B xs)) \<le> 0"
    proof (cases "takeWhile ?B xs")
      case Nil
      then show ?thesis using True by (simp add: compareFormats_le0)
    next
      case (Cons h t)
      then have "h \<in> set xs" by (metis list.set_intros(1) set_takeWhileD)
      then show ?thesis using sx Cons by simp
    qed
    then have "insertSorted compareFormats x (takeWhile ?B xs @ f # dropWhile ?B xs)
                 = x # takeWhile ?B xs @ f # dropWhile ?B xs"
      by (intro insertSorted_head) simp
    then show ?thesis using True IH by simp
  next
    case False
    with nx have gt: "f_from f < f_from x" by simp
    have "\<forall>y\<in>set xs. \<not> ?B y"
      using sx gt by (auto simp: compareFormats_le0)
    then have tw: "takeWhile ?B xs = []" and dw: "dropWhile ?B xs = xs"
      by (cases xs; simp)+
    have 1: "\<not> compareFormats x f \<le> 0" using gt by (simp add: compareFormats_le0)
    have 2: "insertSorted compareFormats x xs = x # xs"
      using sx by (intro insertSorted_head) (cases xs; simp)
    show ?thesis using False IH tw dw 1 2 by simp
  qed
qed

lemma indexOf_range:
  "indexOf r xs = - 1 \<or> (0 \<le> indexOf r xs \<and> indexOf r xs < int (length xs))"
  by (induction xs) (auto simp: Let_def)

lemma indexOf_append_Cons:
  "r \<notin> fst ` set A \<Longrightarrow> indexOf r (A @ (r, e) # B) = int (length A)"
  by (induction A) (auto simp: Let_def)

lemma case_nonempty_else:
  "\<not> (\<exists>x xs. G = Some (x # xs)) \<Longrightarrow> (case G of Some (x # xs) \<Rightarrow> A x xs | _ \<Rightarrow> B) = B"
  by (cases G) (simp_all split: list.splits)

text \<open>
  A format applied where \<open>getFormattedRanges\<close> finds nothing is added in sorted
  position and the list is normalized; a format applied again over its own exact range,
  with nothing else in the range, is removed.
\<close>

lemma format_adds_when_nothing_in_range:
  assumes "\<forall>e\<in>set (p_formats p). \<not> overlapsRange e f"
  shows "format f False p =
           Some (p\<lparr>p_formats := normalizeFormats (sortWith compareFormats (p_formats p @ [f]))\<rparr>)"
proof -
  have none: "filter (\<lambda>x. overlapsRange (snd x) f) (withRefs (p_formats p)) = []"
    using assms by (rule filter_withRefs_Nil)
  show ?thesis
    by (subst format.simps)
       (simp add: Let_def clone_def getFormattedRangesObj_True getFormattedRangesObj_False none
          map_snd_addNewFormatting)
qed

lemma format_removes_exact:
  assumes attrs: "f_attrs f = None" and le: "f_from f \<le> f_to f"
    and as: "\<forall>e\<in>set as. \<not> overlapsRange e f" and bs: "\<forall>e\<in>set bs. \<not> overlapsRange e f"
    and fs: "p_formats p = as @ f # bs"
  shows "format f False p = Some (p\<lparr>p_formats := normalizeFormats (as @ bs)\<rparr>)"
proof -
  let ?P = "\<lambda>x::obj. overlapsRange (snd x) f"
  let ?k = "length as"
  obtain B where objs: "withRefs (p_formats p) = withRefs as @ (Some ?k, f) # B"
    and B: "map snd B = bs"
    unfolding fs by (rule withRefs_split)
  have self: "overlapsRange f f"
    using le by (simp add: overlapsRange_def inFormatRange_def)
  have "filter ?P B = []"
    using bs B by (intro filter_snd_Nil) simp
  then have found: "filter ?P (withRefs (p_formats p)) = [(Some ?k, f)]"
    unfolding objs using self filter_withRefs_Nil[OF as] by simp
  have notin: "Some ?k \<notin> fst ` set (withRefs as)"
    by (auto simp: fst_withRefs)
  have idx: "indexOf (Some ?k) (withRefs (p_formats p)) = int (length (withRefs as))"
    unfolding objs using notin by (rule indexOf_append_Cons)
  have spl: "splice1 (int (length (withRefs as))) (withRefs (p_formats p)) = withRefs as @ B"
    unfolding objs by (rule splice1_middle)
  have gfr: "getFormattedRangesObj (withRefs (p_formats p)) f True = Some [(Some ?k, f)]"
    unfolding getFormattedRangesObj_True found by simp
  have loop: "formatExisting f False (Some ?k, f) (withRefs (p_formats p)) = withRefs as @ B"
    using attrs by (simp add: formatExisting_def clone_def idx spl)
  have vals: "map snd (withRefs as @ B) = as @ bs"
    by (simp add: map_snd_withRefs B)
  show ?thesis
    by (subst format.simps)
       (simp add: Let_def clone_def gfr loop map_snd_withRefs B)
qed

lemma clearOf_before:
  assumes "f_from f < f_to f" and "clearOf f e" and "f_from e < f_from f"
  shows "\<not> mergeable e f"
  using assms by (auto simp: clearOf_def overlapsRange_def inFormatRange_def mergeable_def)

lemma clearOf_after:
  assumes "f_from f < f_to f" and "clearOf f e" and "\<not> f_from e < f_from f"
  shows "\<not> mergeable f e"
  using assms by (auto simp: clearOf_def overlapsRange_def inFormatRange_def mergeable_def)

lemma clearOf_from_neq:
  assumes "f_from f < f_to f" and "clearOf f e"
  shows "f_from e \<noteq> f_from f"
  using assms by (auto simp: clearOf_def overlapsRange_def inFormatRange_def)

lemma normalized_insert:
  assumes nonempty: "f_from f < f_to f"
    and norm: "normalized fs"
    and clear: "\<forall>e\<in>set fs. clearOf f e"
  shows "normalized (takeWhile (\<lambda>e. f_from e < f_from f) fs @ f # dropWhile (\<lambda>e. f_from e < f_from f) fs)"
proof -
  let ?B = "\<lambda>e. f_from e < f_from f"
  let ?N = "\<lambda>a b. \<not> mergeable a b"
  have split: "fs = takeWhile ?B fs @ dropWhile ?B fs" by simp
  from norm have "successively ?N (takeWhile ?B fs @ dropWhile ?B fs)"
    by (simp add: normalized_def)
  then have tw: "successively ?N (takeWhile ?B fs)" and dw: "successively ?N (dropWhile ?B fs)"
    unfolding successively_append_iff by blast+
  have left: "takeWhile ?B fs = [] \<or> ?N (last (takeWhile ?B fs)) f"
  proof (cases "takeWhile ?B fs = []")
    case True
    then show ?thesis by simp
  next
    case False
    then have "last (takeWhile ?B fs) \<in> set (takeWhile ?B fs)" by simp
    then have "last (takeWhile ?B fs) \<in> set fs \<and> ?B (last (takeWhile ?B fs))"
      by (rule set_takeWhileD)
    then show ?thesis using clearOf_before[OF nonempty] clear by blast
  qed
  have right: "dropWhile ?B fs = [] \<or> ?N f (hd (dropWhile ?B fs))"
  proof (cases "dropWhile ?B fs = []")
    case True
    then show ?thesis by simp
  next
    case False
    then have "\<not> ?B (hd (dropWhile ?B fs))" by (rule hd_dropWhile)
    moreover have "hd (dropWhile ?B fs) \<in> set fs"
      using False by (meson hd_in_set set_dropWhileD)
    ultimately show ?thesis using clearOf_after[OF nonempty] clear by blast
  qed
  show ?thesis
    unfolding normalized_def
    using tw dw left right by (auto simp: successively_append_iff successively_Cons)
qed

text \<open>
  C7, as stated, fails: on a paragraph holding \<open>b [0, 2)\<close>, applying \<open>b [1, 3)\<close>
  twice first extends the stored format to \<open>[0, 3)\<close> and then trims it to
  \<open>[0, 1)\<close>. It also fails, with nothing stored in the range applied, when the
  stored formats are not in sorted order (the first call sorts them, and the
  normalization then merges them), when they are not normalized (the first call merges
  them), and when a stored format of the same type carrying attrs touches the range (the
  first call merges it into the new format, and the attrs are gone).
\<close>

theorem format_twice_counterexample:
  "f_attrs (fmt ''b'' 1 3) = None \<and>
   Option.bind (format (fmt ''b'' 1 3) False (exampleParagraph ''abcdef'' [fmt ''b'' 0 2]))
     (format (fmt ''b'' 1 3) False) = Some (exampleParagraph ''abcdef'' [fmt ''b'' 0 1]) \<and>
   exampleParagraph ''abcdef'' [fmt ''b'' 0 1] \<noteq> exampleParagraph ''abcdef'' [fmt ''b'' 0 2] \<and>
   Option.bind
     (format (fmt ''b'' 7 8) False (exampleParagraph ''abcdefghij'' [fmt ''i'' 3 3, fmt ''b'' 3 5]))
     (format (fmt ''b'' 7 8) False) = Some (exampleParagraph ''abcdefghij'' [fmt ''b'' 3 3]) \<and>
   Option.bind
     (format (fmt ''i'' 6 7) False (exampleParagraph ''abcdefghij'' [fmt ''b'' 0 2, fmt ''b'' 2 4]))
     (format (fmt ''i'' 6 7) False) = Some (exampleParagraph ''abcdefghij'' [fmt ''b'' 0 4]) \<and>
   Option.bind
     (format (fmt ''a'' 2 4) False
        (exampleParagraph ''abcdefghij'' [(fmt ''a'' 4 6)\<lparr>f_attrs := Some [(''href'', ''x'')]\<rparr>]))
     (format (fmt ''a'' 2 4) False) = Some (exampleParagraph ''abcdefghij'' [fmt ''a'' 4 6])"
  by code_simp

text \<open>
  C7, amended. For every format \<open>f\<close> carrying no attrs whose range is not empty, on
  a paragraph whose formats are sorted (by \<open>from\<close>, then \<open>type\<close>) and normalized,
  and where no stored format lies in the range of \<open>f\<close> (by the test of
  \<open>getFormattedRanges\<close>) and none of the type of \<open>f\<close> touches it: the first
  \<open>format(f)\<close> returns and adds \<open>f\<close>, and the second returns and restores the
  paragraph.
\<close>

theorem format_twice_restores:
  assumes attrs: "f_attrs f = None" and nonempty: "f_from f < f_to f"
    and sorted: "sortedFormats (p_formats p)"
    and norm: "normalizeFormats (p_formats p) = p_formats p"
    and clear: "\<forall>e\<in>set (p_formats p). clearOf f e"
  shows "\<exists>p1. format f False p = Some p1 \<and> f \<in> set (p_formats p1) \<and>
              format f False p1 = Some p"
proof -
  let ?fs = "p_formats p"
  let ?B = "\<lambda>e. f_from e < f_from f"
  let ?tw = "takeWhile ?B ?fs" and ?dw = "dropWhile ?B ?fs"
  let ?p1 = "p\<lparr>p_formats := ?tw @ f # ?dw\<rparr>"
  have apart: "\<forall>e\<in>set ?fs. \<not> overlapsRange e f"
    using clear by (simp add: clearOf_def)
  have neq: "\<forall>e\<in>set ?fs. f_from e \<noteq> f_from f"
    using clear clearOf_from_neq[OF nonempty] by blast
  have nfs: "normalized ?fs"
    using norm by (simp add: normalized_iff_fixed)
  have ins: "sortWith compareFormats (?fs @ [f]) = ?tw @ f # ?dw"
    using sorted neq by (rule sortWith_insert_last)
  have "normalized (?tw @ f # ?dw)"
    using nonempty nfs clear by (rule normalized_insert)
  then have fix1: "normalizeFormats (?tw @ f # ?dw) = ?tw @ f # ?dw"
    by (rule normalizeFormats_fixed)
  have first: "format f False p = Some ?p1"
    by (simp only: format_adds_when_nothing_in_range[OF apart] ins fix1)
  have tw: "\<forall>e\<in>set ?tw. \<not> overlapsRange e f"
    using apart by (auto dest: set_takeWhileD)
  have dw: "\<forall>e\<in>set ?dw. \<not> overlapsRange e f"
    using apart by (auto dest: set_dropWhileD)
  have le: "f_from f \<le> f_to f" using nonempty by simp
  have "format f False ?p1 = Some (?p1\<lparr>p_formats := normalizeFormats (?tw @ ?dw)\<rparr>)"
    using attrs le tw dw by (rule format_removes_exact) simp
  then have second: "format f False ?p1 = Some p"
    using norm by simp
  show ?thesis
    using first second by (intro exI[of _ ?p1]) simp
qed

theorem format_twice_restores_witness:
  "f_attrs (fmt ''b'' 3 5) = None \<and> f_from (fmt ''b'' 3 5) < f_to (fmt ''b'' 3 5) \<and>
   sortedFormats [fmt ''b'' 0 2, fmt ''i'' 5 8] \<and>
   normalizeFormats [fmt ''b'' 0 2, fmt ''i'' 5 8] = [fmt ''b'' 0 2, fmt ''i'' 5 8] \<and>
   clearOf (fmt ''b'' 3 5) (fmt ''b'' 0 2) \<and> clearOf (fmt ''b'' 3 5) (fmt ''i'' 5 8) \<and>
   (\<exists>p1. format (fmt ''b'' 3 5) False
           (exampleParagraph ''hello world'' [fmt ''b'' 0 2, fmt ''i'' 5 8]) = Some p1 \<and>
         fmt ''b'' 3 5 \<in> set (p_formats p1) \<and>
         format (fmt ''b'' 3 5) False p1
           = Some (exampleParagraph ''hello world'' [fmt ''b'' 0 2, fmt ''i'' 5 8]))"
proof -
  have h: "f_attrs (fmt ''b'' 3 5) = None \<and> f_from (fmt ''b'' 3 5) < f_to (fmt ''b'' 3 5) \<and>
   sortedFormats [fmt ''b'' 0 2, fmt ''i'' 5 8] \<and>
   normalizeFormats [fmt ''b'' 0 2, fmt ''i'' 5 8] = [fmt ''b'' 0 2, fmt ''i'' 5 8] \<and>
   clearOf (fmt ''b'' 3 5) (fmt ''b'' 0 2) \<and> clearOf (fmt ''b'' 3 5) (fmt ''i'' 5 8)"
    by (simp add: fmt_def sortedFormats_def compareFormats_def clone_def clearOf_def
        overlapsRange_def inFormatRange_def)
  then show ?thesis
    using format_twice_restores [of "fmt ''b'' 3 5"
        "exampleParagraph ''hello world'' [fmt ''b'' 0 2, fmt ''i'' 5 8]"]
    by (simp add: exampleParagraph_def)
qed

text \<open>
  Every call of \<open>format\<close> with the clear flag unset that returns leaves a
  normalized list: no format can be merged into the one before it.
\<close>

lemma format_result_normalized:
  assumes "format f False p = Some p'"
  shows "normalized (p_formats p')"
proof -
  from assms have "\<exists>p2. p' = p2\<lparr>p_formats := normalizeFormats (p_formats p2)\<rparr>"
    by (subst (asm) format.simps) (auto simp only: Let_def bind_eq_Some_conv simp_thms if_True)
  then obtain p2 where "p' = p2\<lparr>p_formats := normalizeFormats (p_formats p2)\<rparr>" ..
  then show ?thesis by (simp add: normalizeFormats_normalized)
qed

text \<open>
  A call of \<open>format\<close> that does not return. A format carrying attrs is applied over
  ranges of two types. The query by type finds them mixed, so the method clears the
  range and applies the format again; but the clearing pass, given attrs, only writes
  the attrs to the ranges it finds and changes no range, so the second application
  meets the paragraph the first one met after its clearing pass, without end.
\<close>

lemma clear_pass_mixed: "format linkFormat True mixedParagraph = Some mixedParagraphLinked"
  by code_simp

lemma clear_pass_linked: "format linkFormat True mixedParagraphLinked = Some mixedParagraphLinked"
  by code_simp

lemma G1: "getFormattedRangesObj (withRefs (p_formats mixedParagraphLinked)) linkFormat True = None"
  by code_simp

lemma G2: "getFormattedRangesObj (withRefs (p_formats mixedParagraphLinked)) linkFormat False \<noteq> None"
  by code_simp

lemma linked_found:
  "getFormattedRangesObj linkedObjs linkFormat False = Some (hd linkedObjs # tl linkedObjs)"
  unfolding linkedObjs_def by code_simp

lemma linked_mixed: "getFormattedRangesObj linkedObjs linkFormat True = None"
  unfolding linkedObjs_def by code_simp

lemma format_linked_only_clears:
  assumes "format f clear p = Some y"
  shows "f = linkFormat \<longrightarrow> p = mixedParagraphLinked \<longrightarrow> clear \<and> y = mixedParagraphLinked"
proof (rule format.raw_induct[OF _ assms], goal_cases)
  case (1 fmt0 f clear p y)
  note IH = "1"(1)
  show ?case
  proof (intro impI)
    assume f: "f = linkFormat" and p: "p = mixedParagraphLinked"
    show "clear \<and> y = mixedParagraphLinked"
    proof (cases clear)
      case True
      then have c: "clear = True" by simp
      have "format linkFormat True mixedParagraphLinked = Some y"
        using "1"(2) unfolding f p c
        by (subst format.simps) (simp only: not_True_eq_False if_False)
      then show ?thesis using True by (simp add: clear_pass_linked)
    next
      case False
      then have c: "clear = False" by simp
      have objs: "withRefs (p_formats mixedParagraphLinked) = linkedObjs"
        by (simp only: linkedObjs_def)
      have "\<exists>p1 p2. fmt0 linkFormat True mixedParagraphLinked = Some p1 \<and>
                    fmt0 linkFormat False p1 = Some p2"
        using "1"(2) unfolding f p c Let_def clone_def objs
        by (auto simp add: linked_found linked_mixed bind_eq_Some_conv)
      then obtain p1 p2 where a: "fmt0 linkFormat True mixedParagraphLinked = Some p1"
        and b: "fmt0 linkFormat False p1 = Some p2"
        by (elim exE conjE)
      from IH[OF a] have "p1 = mixedParagraphLinked" by simp
      with IH[OF b] show ?thesis by simp
    qed
  qed
qed

lemma format_may_not_return: "format linkFormat False mixedParagraph = None"
proof -
  have never: "format linkFormat False mixedParagraphLinked = None"
  proof (cases "format linkFormat False mixedParagraphLinked")
    case None
    then show ?thesis .
  next
    case (Some y)
    then show ?thesis using format_linked_only_clears[OF Some] by simp
  qed
  have found: "getFormattedRangesObj (withRefs (p_formats mixedParagraph)) linkFormat False
      = Some (hd (withRefs (p_formats mixedParagraph)) # tl (withRefs (p_formats mixedParagraph)))"
    by code_simp
  have mixed: "getFormattedRangesObj (withRefs (p_formats mixedParagraph)) linkFormat True = None"
    by code_simp
  show ?thesis
    by (subst format.simps)
       (simp add: Let_def clone_def found mixed clear_pass_mixed never)
qed

text \<open>
  C6. After any sequence of \<open>format()\<close> calls with the clear flag unset the formats
  are meant to be sorted by \<open>from\<close>, then \<open>type\<close> (\<open>addNewFormatting\<close> sorts
  them so). Applying \<open>b [0, 1)\<close>, \<open>b [2, 4)\<close> and \<open>b [0, 4)\<close> to a paragraph
  without formats leaves \<open>b [4, 1)\<close> before \<open>b [2, 0)\<close>: the third call trims
  both stored formats at the edge they share with the new one, although the new range
  contains them, and nothing sorts the list afterwards. (The idempotence of
  \<open>normalizeFormats_\<close> holds: \<open>normalizeFormats_idempotent\<close>.)
\<close>

theorem format_sequence_unsorted:
  "applyFormats [fmt ''b'' 0 1, fmt ''b'' 2 4, fmt ''b'' 0 4] (exampleParagraph ''abcdef'' [])
     = Some (exampleParagraph ''abcdef'' [fmt ''b'' 4 1, fmt ''b'' 2 0]) \<and>
   compareFormats (fmt ''b'' 4 1) (fmt ''b'' 2 0) > 0"
  by code_simp

section \<open>Bounds of the formats\<close>

text \<open>
  What the operations keep: \<open>insertCharactersAt\<close> keeps ranges that are not empty
  within the text; \<open>removeCharactersAt\<close> does when at most one range lies inside the
  removed characters and every other one beside them; \<open>format\<close> and
  \<open>applyFormats\<close> keep both ends of every range within the text.
\<close>

lemma insert_keeps_valid:
  assumes "\<forall>f\<in>set (p_formats p). validRange (length (p_text p)) f"
  shows "\<forall>f\<in>set (p_formats (insertCharactersAt chars index p)).
           validRange (length (p_text (insertCharactersAt chars index p))) f"
proof -
  let ?n = "int (length chars)"
  have "\<forall>f\<in>set (p_formats p). \<not> inShiftedRange index ?n f"
    using assms by (auto simp: inShiftedRange_def validRange_def)
  then have eq: "p_formats (insertCharactersAt chars index p) = map (shiftFormat index ?n) (p_formats p)"
    by (simp add: p_formats_insertCharactersAt shiftFormatsFrom_no_removal)
  have "validRange (length (p_text p) + length chars) (shiftFormat index ?n f)"
    if "validRange (length (p_text p)) f" for f
    using that by (auto simp: validRange_def shiftFormat_def Let_def)
  then show ?thesis
    using assms unfolding eq length_insertCharactersAt by simp
qed

lemma remove_keeps_valid:
  assumes idx: "0 \<le> index" "0 \<le> count" "index + count \<le> int (length (p_text p))"
    and valid: "\<forall>f\<in>set (p_formats p). validRange (length (p_text p)) f"
    and place: "\<forall>f\<in>set (p_formats p). besideRemoval index count f \<or> insideRemoval index count f"
    and one: "length (filter (insideRemoval index count) (p_formats p)) \<le> 1"
  shows "\<forall>f\<in>set (p_formats (removeCharactersAt index count p)).
           validRange (length (p_text (removeCharactersAt index count p))) f"
proof -
  have flag: "inShiftedRange index (- count) = insideRemoval index count"
    by (rule ext) (simp add: inShiftedRange_def insideRemoval_def)
  have eq: "p_formats (removeCharactersAt index count p)
          = map (shiftFormat index (- count)) (filter (\<lambda>f. \<not> insideRemoval index count f) (p_formats p))"
    using one shiftFormatsFrom_at_most_one[of index "- count" "p_formats p"]
    by (simp add: p_formats_removeCharactersAt flag)
  have len: "int (length (p_text (removeCharactersAt index count p))) = int (length (p_text p)) - count"
    using idx by (rule length_removeCharactersAt)
  have "validRange (length (p_text (removeCharactersAt index count p))) (shiftFormat index (- count) f)"
    if "validRange (length (p_text p)) f" and "besideRemoval index count f" for f
    using that idx len
    by (auto simp: validRange_def besideRemoval_def shiftFormat_def Let_def)
  then show ?thesis
    unfolding eq using valid place by auto
qed

lemma set_assignAt: "set (assignAt i v xs) \<subseteq> insert v (set xs)"
  using set_update_subset_insert[of xs "nat i" v] by (auto simp: assignAt_def)

lemma set_splice1: "set (splice1 i xs) \<subseteq> set xs"
  by (auto simp: splice1_def Let_def dest: in_set_takeD in_set_dropD)

lemma set_insertSorted: "set (insertSorted cmp x ys) = insert x (set ys)"
  by (induction ys) auto

lemma set_sortWith: "set (sortWith cmp xs) = set xs"
  by (induction xs) (simp_all add: set_insertSorted)

lemma set_addNewFormatting: "set (addNewFormatting g objs) = insert (None, g) (set objs)"
  by (simp add: addNewFormatting_def set_sortWith)

lemma formatExisting_ends:
  assumes f: "endsInText n f" and e: "endsInText n (snd original)"
    and objs: "\<forall>x\<in>set objs. endsInText n (snd x)"
  shows "\<forall>x\<in>set (formatExisting f clear original objs). endsInText n (snd x)"
proof -
  let ?e = "snd original"
  let ?i = "indexOf (fst original) objs"
  have upd: "\<forall>x\<in>set (assignAt ?i (None, g) objs). endsInText n (snd x)"
    if "endsInText n g" for g
    using that objs set_assignAt[of ?i "(None, g)" objs] by auto
  have spl: "\<forall>x\<in>set (splice1 ?i objs). endsInText n (snd x)"
    using objs set_splice1[of ?i objs] by auto
  have add2: "\<forall>x\<in>set (addNewFormatting g (addNewFormatting h (splice1 ?i objs))).
                endsInText n (snd x)"
    if "endsInText n g" and "endsInText n h" for g h
    using that spl by (auto simp: set_addNewFormatting)
  have 1: "endsInText n (?e\<lparr>f_attrs := a\<rparr>)" for a
    using e by (simp add: endsInText_def)
  have 2: "endsInText n (?e\<lparr>f_to := f_from f\<rparr>)"
    using e f by (simp add: endsInText_def)
  have 3: "endsInText n (?e\<lparr>f_from := f_to f\<rparr>)"
    using e f by (simp add: endsInText_def)
  have 4: "endsInText n \<lparr>f_type = t, f_from = f_to f, f_to = f_to ?e, f_attrs = None\<rparr>" for t
    using e f by (simp add: endsInText_def)
  have 5: "endsInText n \<lparr>f_type = t, f_from = f_from ?e, f_to = f_from f, f_attrs = None\<rparr>" for t
    using e f by (simp add: endsInText_def)
  have 6: "endsInText n (?e\<lparr>f_from := min (f_from ?e) (f_from f), f_to := max (f_to ?e) (f_to f)\<rparr>)"
    using e f by (simp add: endsInText_def min_def max_def)
  show ?thesis
    unfolding formatExisting_def Let_def clone_def
    using upd[OF 1] upd[OF 2] upd[OF 3] upd[OF 6] spl add2[OF 4 5]
    by simp
qed

lemma formatLoop_ends:
  assumes "endsInText n f"
    and "\<forall>x\<in>set originals. endsInText n (snd x)"
    and "\<forall>x\<in>set objs. endsInText n (snd x)"
  shows "\<forall>x\<in>set (formatLoop f clear originals objs). endsInText n (snd x)"
  using assms(2,3)
proof (induction originals arbitrary: objs)
  case Nil
  then show ?case by simp
next
  case (Cons original rest)
  from Cons.prems(1) have e: "endsInText n (snd original)"
    and rest: "\<forall>x\<in>set rest. endsInText n (snd x)"
    by simp_all
  have "\<forall>x\<in>set (formatExisting f clear original objs). endsInText n (snd x)"
    using assms(1) e Cons.prems(2) by (rule formatExisting_ends)
  with rest have "\<forall>x\<in>set (formatLoop f clear rest (formatExisting f clear original objs)).
                    endsInText n (snd x)"
    by (rule Cons.IH)
  then show ?case by (simp only: formatLoop.simps)
qed

lemma withRefs_ends:
  "\<forall>e\<in>set fs. endsInText n e \<Longrightarrow> \<forall>x\<in>set (withRefs fs). endsInText n (snd x)"
  by (auto dest: set_withRefs_snd)

lemma normalizeLoop_ends:
  "endsInText n l \<Longrightarrow> \<forall>e\<in>set fs. endsInText n e \<Longrightarrow>
     \<forall>e\<in>set (normalizeLoop l fs). endsInText n e"
proof (induction fs arbitrary: l)
  case Nil
  then show ?case by simp
next
  case (Cons f fs)
  from Cons.prems(2) have f: "endsInText n f" and fs: "\<forall>e\<in>set fs. endsInText n e"
    by simp_all
  show ?case
  proof (cases "mergeable l f")
    case True
    have "endsInText n (l\<lparr>f_to := f_to f\<rparr>)"
      using Cons.prems(1) f by (simp add: endsInText_def)
    then have "\<forall>e\<in>set (normalizeLoop (l\<lparr>f_to := f_to f\<rparr>) fs). endsInText n e"
      using fs by (rule Cons.IH)
    then show ?thesis using True by (simp only: normalizeLoop_Cons if_True)
  next
    case False
    have "\<forall>e\<in>set (normalizeLoop f fs). endsInText n e"
      using f fs by (rule Cons.IH)
    then have "\<forall>e\<in>set (l # normalizeLoop f fs). endsInText n e"
      using Cons.prems(1) by simp
    then show ?thesis using False by (simp only: normalizeLoop_Cons if_False)
  qed
qed

lemma normalizeFormats_ends:
  assumes "\<forall>e\<in>set fs. endsInText n e"
  shows "\<forall>e\<in>set (normalizeFormats fs). endsInText n e"
proof (cases fs)
  case Nil
  then show ?thesis by simp
next
  case (Cons a list)
  with assms have "endsInText n a" and "\<forall>e\<in>set list. endsInText n e" by simp_all
  then have "\<forall>e\<in>set (normalizeLoop a list). endsInText n e" by (rule normalizeLoop_ends)
  then show ?thesis using Cons by (simp add: clone_def)
qed

lemma format_keeps_ends:
  assumes "format f clear p = Some p'"
  shows "p_text p' = p_text p \<and>
         (endsInText n f \<longrightarrow> (\<forall>e\<in>set (p_formats p). endsInText n e)
            \<longrightarrow> (\<forall>e\<in>set (p_formats p'). endsInText n e))"
proof (rule format.raw_induct[OF _ assms], goal_cases)
  case (1 fmt0 f clear p p')
  let ?objs = "withRefs (p_formats p)"
  let ?W = "\<lambda>q. \<forall>e\<in>set (p_formats q). endsInText n e"
  let ?norm = "\<lambda>p2. if \<not> clear then p2\<lparr>p_formats := normalizeFormats (p_formats p2)\<rparr> else p2"
  let ?G1 = "getFormattedRangesObj ?objs f (\<not> clear)"
  let ?G2 = "getFormattedRangesObj ?objs f False"
  let ?rec = "if \<not> clear then Option.bind (fmt0 f True p) (fmt0 f False) else Some p"
  let ?add = "Some (p\<lparr>p_formats := map snd (addNewFormatting f ?objs)\<rparr>)"
  note IH = "1"(1)
  have n1: "p_text (?norm q) = p_text q" for q
    by simp
  have n2: "?W (?norm q)" if "?W q" for q
  proof (cases clear)
    case True
    then show ?thesis using that by simp
  next
    case False
    have "\<forall>e\<in>set (normalizeFormats (p_formats q)). endsInText n e"
      using that by (rule normalizeFormats_ends)
    then show ?thesis using False by simp
  qed
  define X where "X =
    (case ?G1 of
       Some (x # xs) \<Rightarrow> Some (p\<lparr>p_formats := map snd (formatLoop f clear (x # xs) ?objs)\<rparr>)
     | _ \<Rightarrow> (case ?G2 of Some (y # ys) \<Rightarrow> ?rec | _ \<Rightarrow> ?add))"
  have "Option.bind X (\<lambda>p2. Some (?norm p2)) = Some p'"
    using "1"(2) unfolding Let_def clone_def X_def .
  then obtain p2 where body: "X = Some p2" and p2: "p' = ?norm p2"
    by (auto simp: bind_eq_Some_conv)
  have mid: "p_text p2 = p_text p \<and> (endsInText n f \<longrightarrow> ?W p \<longrightarrow> ?W p2)"
  proof (cases "\<exists>x xs. ?G1 = Some (x # xs)")
    case True
    then obtain x xs where gfr: "?G1 = Some (x # xs)"
      by (elim exE)
    have eq: "p2 = p\<lparr>p_formats := map snd (formatLoop f clear (x # xs) ?objs)\<rparr>"
      using body unfolding X_def gfr by simp
    have "\<forall>z\<in>set (formatLoop f clear (x # xs) ?objs). endsInText n (snd z)"
      if "endsInText n f" and "?W p"
    proof (rule formatLoop_ends)
      show "endsInText n f" by fact
      show objs: "\<forall>z\<in>set ?objs. endsInText n (snd z)" using that(2) by (rule withRefs_ends)
      have "set (x # xs) \<subseteq> set ?objs"
        using gfr by (rule getFormattedRangesObj_subset)
      then show "\<forall>z\<in>set (x # xs). endsInText n (snd z)"
        using objs by (meson subsetD)
    qed
    then show ?thesis unfolding eq by simp
  next
    case False
    then have X2: "X = (case ?G2 of Some (y # ys) \<Rightarrow> ?rec | _ \<Rightarrow> ?add)"
      unfolding X_def by (rule case_nonempty_else)
    show ?thesis
    proof (cases "\<exists>y ys. ?G2 = Some (y # ys)")
      case True
      then obtain y ys where g2: "?G2 = Some (y # ys)" by (elim exE)
      have rec: "?rec = Some p2"
        using body unfolding X2 g2 by simp
      show ?thesis
      proof (cases clear)
        case True
        then show ?thesis using rec by simp
      next
        case False
        then obtain p1 where a: "fmt0 f True p = Some p1" and b: "fmt0 f False p1 = Some p2"
          using rec by (auto simp: bind_eq_Some_conv)
        have A: "p_text p1 = p_text p \<and> (endsInText n f \<longrightarrow> ?W p \<longrightarrow> ?W p1)"
          by (rule IH[OF a])
        have B: "p_text p2 = p_text p1 \<and> (endsInText n f \<longrightarrow> ?W p1 \<longrightarrow> ?W p2)"
          by (rule IH[OF b])
        show ?thesis
        proof (intro conjI impI)
          show "p_text p2 = p_text p"
            by (rule trans[OF conjunct1[OF B] conjunct1[OF A]])
        next
          assume E: "endsInText n f" and W: "?W p"
          have "?W p1" by (rule mp[OF mp[OF conjunct2[OF A] E] W])
          then show "?W p2" by (rule mp[OF mp[OF conjunct2[OF B] E]])
        qed
      qed
    next
      case False
      then have "X = ?add"
        unfolding X2 by (rule case_nonempty_else)
      then have eq: "p2 = p\<lparr>p_formats := map snd (addNewFormatting f ?objs)\<rparr>"
        using body by simp
      have "\<forall>z\<in>set (addNewFormatting f ?objs). endsInText n (snd z)"
        if "endsInText n f" and "?W p"
        using that withRefs_ends[of "p_formats p" n] by (simp add: set_addNewFormatting)
      then show ?thesis unfolding eq by simp
    qed
  qed
  show ?case
    unfolding p2
  proof (intro conjI impI)
    show "p_text (?norm p2) = p_text p"
      using mid by (simp only: n1)
  next
    assume "endsInText n f" and "?W p"
    with mid have "?W p2" by blast
    then show "?W (?norm p2)" by (rule n2)
  qed
qed

lemma applyFormats_keeps_ends:
  assumes "applyFormats fs p = Some p'"
    and "\<forall>f\<in>set fs. endsInText n f"
  shows "p_text p' = p_text p \<and>
         ((\<forall>e\<in>set (p_formats p). endsInText n e) \<longrightarrow> (\<forall>e\<in>set (p_formats p'). endsInText n e))"
  using assms
proof (induction fs arbitrary: p)
  case Nil
  then show ?case by simp
next
  case (Cons f fs)
  from Cons.prems(1) obtain p1 where a: "format f False p = Some p1"
    and b: "applyFormats fs p1 = Some p'"
    by (auto simp: bind_eq_Some_conv)
  from Cons.prems(2) have f: "endsInText n f" and fs: "\<forall>f\<in>set fs. endsInText n f"
    by simp_all
  have A: "p_text p1 = p_text p \<and>
         (endsInText n f \<longrightarrow> (\<forall>e\<in>set (p_formats p). endsInText n e)
            \<longrightarrow> (\<forall>e\<in>set (p_formats p1). endsInText n e))"
    using a by (rule format_keeps_ends)
  have B: "p_text p' = p_text p1 \<and>
         ((\<forall>e\<in>set (p_formats p1). endsInText n e) \<longrightarrow> (\<forall>e\<in>set (p_formats p'). endsInText n e))"
    using b fs by (rule Cons.IH)
  show ?case
  proof (intro conjI impI)
    show "p_text p' = p_text p"
      by (rule trans[OF conjunct1[OF B] conjunct1[OF A]])
  next
    assume W: "\<forall>e\<in>set (p_formats p). endsInText n e"
    have "\<forall>e\<in>set (p_formats p1). endsInText n e"
      by (rule mp[OF mp[OF conjunct2[OF A] f] W])
    then show "\<forall>e\<in>set (p_formats p'). endsInText n e"
      by (rule mp[OF conjunct2[OF B]])
  qed
qed

text \<open>
  C1. Every operation is meant to leave each format with
  \<open>0 \<le> from \<le> to \<le> text.length\<close>. Two of them do not, on paragraphs whose
  formats satisfy it. \<open>removeCharactersAt(1, 3)\<close> on the text \<open>abcdef\<close> with bold
  \<open>[1, 6)\<close>, a removal that lies in the text, leaves bold with \<open>from = -2\<close>:
  \<open>shiftFormatsFrom_\<close> moves a start that lies in the removed characters back by the
  whole count instead of to the index. \<open>format\<close> of bold \<open>[2, 5)\<close> on \<open>abcdef\<close>
  with bold \<open>[3, 5)\<close> leaves bold \<open>[3, 2)\<close>, with \<open>from > to\<close>: the stored
  format shares the end of the applied one, and the branch that trims at an edge cuts
  it at the applied start.
\<close>

theorem operations_break_bounds:
  "(0::int) \<le> 1 \<and> (0::int) \<le> 3 \<and> 1 + 3 \<le> int (length ''abcdef'') \<and>
   list_all (inBounds (length ''abcdef'')) [fmt ''b'' 1 6] \<and>
   removeCharactersAt 1 3 (exampleParagraph ''abcdef'' [fmt ''b'' 1 6])
     = exampleParagraph ''aef'' [fmt ''b'' (- 2) 3] \<and>
   \<not> list_all (inBounds (length ''aef'')) [fmt ''b'' (- 2) 3] \<and>
   list_all (inBounds (length ''abcdef'')) [fmt ''b'' 3 5] \<and>
   inBounds (length ''abcdef'') (fmt ''b'' 2 5) \<and>
   format (fmt ''b'' 2 5) False (exampleParagraph ''abcdef'' [fmt ''b'' 3 5])
     = Some (exampleParagraph ''abcdef'' [fmt ''b'' 3 2]) \<and>
   \<not> list_all (inBounds (length ''abcdef'')) [fmt ''b'' 3 2]"
  by code_simp

section \<open>Operation descriptors\<close>

lemma getUpdateOps_undo_eq_do:
  "map undo (getUpdateOps attrs optCursorOffset optSelectRange p)
     = map do (getUpdateOps attrs optCursorOffset optSelectRange p)"
  by (simp add: getUpdateOps_def)

text \<open>
  C3. The undo of \<open>getUpdateOps\<close> is meant to carry the formats the paragraph had
  before the update. The code builds it from \<open>attrs.formats\<close>, as it builds the do:
  for a paragraph holding \<open>b [0, 5)\<close> and the new formats \<open>i [0, 2)\<close> the undo
  carries \<open>i [0, 2)\<close>.
\<close>

theorem getUpdateOps_undo_carries_new_formats:
  "map (formats \<circ> undo)
     (getUpdateOps \<lparr>a_formats = Some [fmt ''i'' 0 2]\<rparr> None None
        (exampleParagraph ''hello'' [fmt ''b'' 0 5])) = [Some [fmt ''i'' 0 2]] \<and>
   p_formats (exampleParagraph ''hello'' [fmt ''b'' 0 5]) = [fmt ''b'' 0 5] \<and>
   [fmt ''i'' 0 2] \<noteq> [fmt ''b'' 0 5]"
  by (simp add: getUpdateOps_def exampleParagraph_def fmt_def)

end
